theory Spec2Isabelle
  imports Main
begin

text \<open>
  The modal plugin of \<^verbatim>\<open>src/plugin.ts\<close>: the function \<^verbatim>\<open>createModal\<close>, the component
  \<^verbatim>\<open>ModalStackComponent\<close> with its hooks \<^verbatim>\<open>mounted\<close> and \<^verbatim>\<open>beforeUnmount\<close> and its
  \<^verbatim>\<open>render\<close> function, the closure \<^verbatim>\<open>onDismissModal\<close> that \<^verbatim>\<open>render\<close> builds, and the
  module variables \<^verbatim>\<open>entries\<close> and \<^verbatim>\<open>modalStack\<close>.
\<close>

section \<open>Modal identifiers\<close>

text \<open>
  \<^verbatim>\<open>createModal\<close> names every modal by
  \<^verbatim>\<open>Math.floor(Math.random() * Number.MAX_SAFE_INTEGER).toString(16).substr(0, 8).padStart(8, '0')\<close>.
  The pseudo-random source enters the model as the natural number that
  \<^verbatim>\<open>Math.floor\<close> returns (a non-negative integer below \<open>2 ^ 53\<close>); the string
  operations are those of JavaScript on that integer.
\<close>

definition hexDigit :: "nat \<Rightarrow> char" where
  "hexDigit d = ''0123456789abcdef'' ! d"

text \<open>\<^verbatim>\<open>Number.prototype.toString(16)\<close> on a non-negative integer: lower-case digits,
  no prefix, no leading zero, and \<open>''0''\<close> for zero.\<close>

fun toString16 :: "nat \<Rightarrow> string" where
  "toString16 n = (if n < 16 then [hexDigit n] else toString16 (n div 16) @ [hexDigit (n mod 16)])"

declare toString16.simps [simp del]

text \<open>\<^verbatim>\<open>s.substr(start, len)\<close> for a start inside the string.\<close>

definition substr :: "string \<Rightarrow> nat \<Rightarrow> nat \<Rightarrow> string" where
  "substr s start len = take len (drop start s)"

text \<open>\<^verbatim>\<open>s.padStart(len, c)\<close> with a one-character filler.\<close>

definition padStart :: "string \<Rightarrow> nat \<Rightarrow> char \<Rightarrow> string" where
  "padStart s len c = replicate (len - length s) c @ s"

definition modalId :: "nat \<Rightarrow> string" where
  "modalId n = padStart (substr (toString16 n) 0 8) 8 CHR ''0''"

definition isHexChar :: "char \<Rightarrow> bool" where
  "isHexChar c = (c \<in> set ''0123456789abcdef'')"

section \<open>The registry, the controller and the promises\<close>

text \<open>
  The result a modal is dismissed with has the TypeScript type \<^verbatim>\<open>any\<close>. What matters
  of a value is whether \<^verbatim>\<open>resolve\<close> takes it as it is or adopts it: a thenable (an
  object with a callable \<^verbatim>\<open>then\<close>) is adopted. \<open>JPromise p\<close> is the promise that
  \<^verbatim>\<open>createModal\<close> returned as its \<open>p\<close>-th, \<open>JThenable t\<close> any other thenable, and
  \<open>JOther k\<close> any other value that is not a thenable (an object, a symbol, a number
  that is not an integer), each by an identity.
\<close>

datatype jsval =
  JUndefined | JNull | JBool bool | JNumber int | JString string | JOther nat
| JThenable nat | JPromise nat

definition isThenable :: "jsval \<Rightarrow> bool" where
  "isThenable v = (case v of JThenable t \<Rightarrow> True | JPromise q \<Rightarrow> True | _ \<Rightarrow> False)"

text \<open>
  A promise is pending, fulfilled with a value, or rejected with an error (written as
  its message). \<open>Adopting v\<close> is a promise that has been resolved with the thenable
  \<open>v\<close>: it is locked in to the fate of \<open>v\<close>, still unsettled for its observers, and
  deaf to its settling functions.
\<close>

datatype promise = Pending | Adopting jsval | Fulfilled jsval | Rejected string

text \<open>A component definition is an opaque reference; its props are named values.\<close>

type_synonym component = string

type_synonym props = "(string \<times> jsval) list"

text \<open>
  The closure \<^verbatim>\<open>onDismissModal\<close> that \<^verbatim>\<open>render\<close> builds captures three
  variables: \<^verbatim>\<open>this\<close> (the rendering \<^verbatim>\<open>ModalStack\<close> instance), \<^verbatim>\<open>id\<close> and
  \<^verbatim>\<open>entry\<close>, of which it reads only \<^verbatim>\<open>entry.resolve\<close>. The model keeps the closure
  as its environment; \<open>h_resolve\<close> is the promise whose resolving function
  \<^verbatim>\<open>entry.resolve\<close> is.
\<close>

record handler =
  h_this :: nat
  h_id :: string
  h_resolve :: nat

text \<open>
  A \<^verbatim>\<open>VNode\<close> is an object: the first argument of each constructor is its
  identity, the number of nodes \<^verbatim>\<open>h\<close> had built before it. \<open>VComponent\<close> is
  \<^verbatim>\<open>h(entry.component, { ...entry.props, onDismissModal })\<close> (the handler is written
  after the spread, so it is the one the node carries), \<open>VDiv\<close> is
  \<^verbatim>\<open>h('div', attrs, child)\<close>.
\<close>

datatype vnode =
  VComponent nat component "props option" handler
| VDiv nat "(string \<times> string) list" vnode

record ModalEntry =
  component :: component
  props :: "props option"
  resolve :: nat
  vnode :: "vnode option"

text \<open>
  The module's state: the record \<^verbatim>\<open>entries\<close>, the variable \<^verbatim>\<open>modalStack\<close>
  (the registered instance, if any), and the data \<^verbatim>\<open>stack\<close> of every
  \<^verbatim>\<open>ModalStack\<close> instance (instances are numbered; \<^verbatim>\<open>data()\<close> starts each with
  the empty array). Around it: the promises \<^verbatim>\<open>createModal\<close> has returned, the
  number of nodes built, the calls of \<^verbatim>\<open>warn\<close> and the events each instance has
  emitted with \<^verbatim>\<open>$emit\<close>, in order.
\<close>

record state =
  entries :: "string \<rightharpoonup> ModalEntry"
  modalStack :: "nat option"
  stack :: "nat \<Rightarrow> string list"
  promises :: "promise list"
  vnodes :: nat
  warnings :: "string list"
  emitted :: "(nat \<times> string \<times> bool) list"

definition init :: state where
  "init = \<lparr>entries = Map.empty, modalStack = None, stack = (\<lambda>_. []), promises = [],
     vnodes = 0, warnings = [], emitted = []\<rparr>"

definition warn :: "string \<Rightarrow> state \<Rightarrow> state" where
  "warn msg s = s\<lparr>warnings := warnings s @ [msg]\<rparr>"

text \<open>The computed property \<^verbatim>\<open>hasModals\<close> of an instance.\<close>

definition hasModals :: "nat \<Rightarrow> state \<Rightarrow> bool" where
  "hasModals this s = (length (stack s this) > 0)"

text \<open>\<^verbatim>\<open>this.$emit(name, this.hasModals)\<close>. The listeners belong to the application; the
  model records the event.\<close>

definition emit :: "nat \<Rightarrow> string \<Rightarrow> state \<Rightarrow> state" where
  "emit this name s = s\<lparr>emitted := emitted s @ [(this, name, hasModals this s)]\<rparr>"

text \<open>
  What \<^verbatim>\<open>resolve(v)\<close> makes of the pending promise \<open>p\<close>: a value that is not a
  thenable fulfils it; a thenable is adopted; the promise itself is a chaining cycle,
  which rejects it with a \<^verbatim>\<open>TypeError\<close>.
\<close>

definition resolution :: "nat \<Rightarrow> jsval \<Rightarrow> promise" where
  "resolution p v =
     (case v of
        JPromise q \<Rightarrow> if q = p then Rejected ''TypeError'' else Adopting v
      | JThenable t \<Rightarrow> Adopting v
      | _ \<Rightarrow> Fulfilled v)"

text \<open>The two settling functions of a promise: each acts on a pending promise only.\<close>

definition resolvePromise :: "nat \<Rightarrow> jsval \<Rightarrow> state \<Rightarrow> state" where
  "resolvePromise p v s =
     (if p < length (promises s) \<and> promises s ! p = Pending
      then s\<lparr>promises := (promises s)[p := resolution p v]\<rparr> else s)"

definition rejectPromise :: "nat \<Rightarrow> string \<Rightarrow> state \<Rightarrow> state" where
  "rejectPromise p msg s =
     (if p < length (promises s) \<and> promises s ! p = Pending
      then s\<lparr>promises := (promises s)[p := Rejected msg]\<rparr> else s)"

subsection \<open>The life cycle hooks of \<^verbatim>\<open>ModalStackComponent\<close>\<close>

definition mounted :: "nat \<Rightarrow> state \<Rightarrow> state" where
  "mounted this s =
     (if modalStack s \<noteq> None then warn ''Vue modal stack component mounted multiple times'' s
      else s\<lparr>modalStack := Some this\<rparr>)"

definition beforeUnmount :: "nat \<Rightarrow> state \<Rightarrow> state" where
  "beforeUnmount this s = (if modalStack s = Some this then s\<lparr>modalStack := None\<rparr> else s)"

text \<open>
  Vue calls \<^verbatim>\<open>mounted\<close> when an instance has entered the tree and
  \<^verbatim>\<open>beforeUnmount\<close> before it leaves. A sequence of these calls, and the instances
  that are mounted after it.
\<close>

datatype hook = Mount nat | Unmount nat

fun hookStep :: "state \<Rightarrow> hook \<Rightarrow> state" where
  "hookStep s (Mount this) = mounted this s"
| "hookStep s (Unmount this) = beforeUnmount this s"

definition lifecycle :: "state \<Rightarrow> hook list \<Rightarrow> state" where
  "lifecycle s hooks = foldl hookStep s hooks"

fun track :: "nat list \<Rightarrow> hook \<Rightarrow> nat list" where
  "track ms (Mount this) = ms @ [this]"
| "track ms (Unmount this) = removeAll this ms"

definition mountedNow :: "hook list \<Rightarrow> nat list" where
  "mountedNow hooks = foldl track [] hooks"

subsection \<open>\<^verbatim>\<open>createModal\<close>\<close>

text \<open>
  The executor of the promise runs at once. It has no \<^verbatim>\<open>return\<close> after
  \<^verbatim>\<open>reject\<close>: the entry is stored in both branches, and
  \<^verbatim>\<open>modalStack?.stack.push(id)\<close> pushes when an instance is registered. The last
  argument is the integer \<^verbatim>\<open>Math.floor(Math.random() * Number.MAX_SAFE_INTEGER)\<close>.
  The result is the new state and the promise returned.
\<close>

definition createModal :: "component \<Rightarrow> props option \<Rightarrow> nat \<Rightarrow> state \<Rightarrow> state \<times> nat" where
  "createModal cmpt prps rnd s =
     (let p = length (promises s);
          s0 = s\<lparr>promises := promises s @ [Pending]\<rparr>;
          s1 = (if modalStack s0 = None
                then rejectPromise p ''No ModalStack avaible''
                       (warn ''No ModalStack component mounted in current render tree'' s0)
                else s0);
          ident = modalId rnd;
          s2 = s1\<lparr>entries := (entries s1)(ident \<mapsto>
                 \<lparr>component = cmpt, props = prps, resolve = p, vnode = None\<rparr>)\<rparr>;
          s3 = (case modalStack s2 of
                  None \<Rightarrow> s2
                | Some ms \<Rightarrow> s2\<lparr>stack := (stack s2)(ms := stack s2 ms @ [ident])\<rparr>)
      in (s3, p))"

subsection \<open>Dismissal\<close>

text \<open>\<^verbatim>\<open>Array.prototype.indexOf\<close>: the first index of the element, or \<open>-1\<close>.\<close>

fun indexOf :: "'a list \<Rightarrow> 'a \<Rightarrow> int" where
  "indexOf [] x = - 1"
| "indexOf (y # ys) x =
     (if y = x then 0 else (let k = indexOf ys x in if k < 0 then - 1 else k + 1))"

text \<open>\<^verbatim>\<open>xs.splice(start, n)\<close> for a start inside the array: the array without the
  \<open>n\<close> elements from \<open>start\<close> on.\<close>

definition splice_js :: "'a list \<Rightarrow> nat \<Rightarrow> nat \<Rightarrow> 'a list" where
  "splice_js xs start n = take start xs @ drop (start + n) xs"

definition onDismissModal :: "handler \<Rightarrow> jsval \<Rightarrow> state \<Rightarrow> state" where
  "onDismissModal h result s =
     (let this = h_this h;
          ident = h_id h;
          index = indexOf (stack s this) ident;
          s1 = (if index \<ge> 0
                then s\<lparr>stack := (stack s)(this := splice_js (stack s this) (nat index) 1)\<rparr>
                else s);
          s2 = s1\<lparr>entries := (entries s1)(ident := None)\<rparr>;
          s3 = resolvePromise (h_resolve h) result s2;
          s4 = emit this ''modalCreated'' s3
      in emit this ''modals'' s4)"

subsection \<open>\<^verbatim>\<open>render\<close>\<close>

text \<open>
  Reading \<^verbatim>\<open>entry.vnode\<close> when \<^verbatim>\<open>entries[id]\<close> is \<^verbatim>\<open>undefined\<close> throws a
  \<^verbatim>\<open>TypeError\<close>, which ends \<^verbatim>\<open>render\<close>; what the callback did for the earlier
  identifiers stays done.
\<close>

datatype error = TypeError

text \<open>The callback of \<^verbatim>\<open>this.stack.map\<close>, for one identifier.\<close>

definition renderEntry :: "nat \<Rightarrow> string \<Rightarrow> state \<Rightarrow> state \<times> (error + vnode)" where
  "renderEntry this ident s =
     (case entries s ident of
        None \<Rightarrow> (s, Inl TypeError)
      | Some entry \<Rightarrow>
          (case vnode entry of
             Some v \<Rightarrow> (s, Inr v)
           | None \<Rightarrow>
               (let onDismiss = \<lparr>h_this = this, h_id = ident, h_resolve = resolve entry\<rparr>;
                    componentVNode = VComponent (vnodes s) (component entry) (props entry) onDismiss;
                    s1 = s\<lparr>vnodes := vnodes s + 1\<rparr>;
                    s2 = emit this ''modalDismissed'' s1;
                    s3 = emit this ''modals'' s2;
                    v = VDiv (vnodes s3) [(''data-modal-'' @ ident, [])] componentVNode;
                    s4 = s3\<lparr>vnodes := vnodes s3 + 1,
                            entries := (entries s3)(ident \<mapsto> entry\<lparr>vnode := Some v\<rparr>)\<rparr>
                in (s4, Inr v))))"

fun renderAll :: "nat \<Rightarrow> string list \<Rightarrow> state \<Rightarrow> state \<times> (error + vnode list)" where
  "renderAll this [] s = (s, Inr [])"
| "renderAll this (ident # ids) s =
     (case renderEntry this ident s of
        (s', Inl e) \<Rightarrow> (s', Inl e)
      | (s', Inr v) \<Rightarrow>
          (case renderAll this ids s' of
             (s'', Inl e) \<Rightarrow> (s'', Inl e)
           | (s'', Inr vs) \<Rightarrow> (s'', Inr (v # vs))))"

definition render :: "nat \<Rightarrow> state \<Rightarrow> state \<times> (error + vnode list)" where
  "render this s = renderAll this (stack s this) s"

subsection \<open>The environment: rendering and dismissing\<close>

text \<open>
  The handler a rendered node carries: the \<^verbatim>\<open>onDismissModal\<close> prop of the component
  node inside the \<^verbatim>\<open>div\<close>. The modal shown by that node is dismissed by calling it.
\<close>

fun handlerOf :: "vnode \<Rightarrow> handler" where
  "handlerOf (VComponent a c p h) = h"
| "handlerOf (VDiv a attrs child) = handlerOf child"

definition nodeHandlers :: "error + vnode list \<Rightarrow> handler list" where
  "nodeHandlers r = (case r of Inl e \<Rightarrow> [] | Inr ns \<Rightarrow> map handlerOf ns)"

text \<open>Vue renders the registered instance: the new state, and the handlers of the
  nodes that \<^verbatim>\<open>render\<close> returns.\<close>

definition present :: "state \<Rightarrow> state" where
  "present s = (case modalStack s of None \<Rightarrow> s | Some ms \<Rightarrow> fst (render ms s))"

definition presented :: "state \<Rightarrow> handler list" where
  "presented s = (case modalStack s of None \<Rightarrow> [] | Some ms \<Rightarrow> nodeHandlers (snd (render ms s)))"

text \<open>
  Sequences of operations on the module: a call of \<^verbatim>\<open>createModal\<close> (with the value
  of the random source), a rendering, and a modal that emits \<^verbatim>\<open>dismissModal\<close> with
  a result, which calls a handler.
\<close>

datatype op = Create component "props option" nat | Present | Dismiss handler jsval

fun step :: "state \<Rightarrow> op \<Rightarrow> state" where
  "step s (Create cmpt prps rnd) = fst (createModal cmpt prps rnd s)"
| "step s Present = present s"
| "step s (Dismiss h result) = onDismissModal h result s"

definition run :: "state \<Rightarrow> op list \<Rightarrow> state" where
  "run s ops = foldl step s ops"

text \<open>
  Only a handler that a rendering has returned inside a node can be called. A sequence
  is admissible, from the handlers \<open>hs\<close> returned so far, when each of its dismissals
  calls such a handler; the same handler may be called again and again.
\<close>

fun fireable :: "handler list \<Rightarrow> op \<Rightarrow> bool" where
  "fireable hs (Dismiss h result) = (h \<in> set hs)"
| "fireable hs x = True"

fun handlersAfter :: "handler list \<Rightarrow> state \<Rightarrow> op \<Rightarrow> handler list" where
  "handlersAfter hs s Present = hs @ presented s"
| "handlersAfter hs s x = hs"

fun admissible :: "handler list \<Rightarrow> state \<Rightarrow> op list \<Rightarrow> bool" where
  "admissible hs s [] = True"
| "admissible hs s (x # ops) =
     (fireable hs x \<and> admissible (handlersAfter hs s x) (step s x) ops)"

text \<open>
  A sequence draws new identifiers when every \<open>Create\<close> in it generates an
  identifier that has no entry at that moment.
\<close>

fun newIds :: "state \<Rightarrow> op list \<Rightarrow> bool" where
  "newIds s [] = True"
| "newIds s (Create cmpt prps rnd # ops) =
     (entries s (modalId rnd) = None \<and> newIds (step s (Create cmpt prps rnd)) ops)"
| "newIds s (x # ops) = newIds (step s x) ops"

text \<open>An operation draws the identifier \<open>i\<close> when it is a creation that generates \<open>i\<close>.\<close>

fun draws :: "string \<Rightarrow> op \<Rightarrow> bool" where
  "draws i (Create cmpt prps rnd) = (modalId rnd = i)"
| "draws i x = False"

section \<open>Invariants\<close>

text \<open>What rendering does to one entry of the registry.\<close>

definition rendered :: "nat \<Rightarrow> string \<Rightarrow> ModalEntry \<Rightarrow> ModalEntry \<Rightarrow> bool" where
  "rendered this i e e' \<longleftrightarrow>
     e' = e \<or>
     (vnode e = None \<and>
      (\<exists>v. e' = e\<lparr>vnode := Some v\<rparr> \<and>
           handlerOf v = \<lparr>h_this = this, h_id = i, h_resolve = resolve e\<rparr>))"

text \<open>
  What holds of the registry while the instance \<open>ms\<close> is registered: the promise of
  every entry is pending, a cached node carries the handler built for that entry, and
  no two entries share a promise.
\<close>

definition registryOk :: "nat \<Rightarrow> state \<Rightarrow> bool" where
  "registryOk ms s \<longleftrightarrow>
     modalStack s = Some ms \<and>
     (\<forall>i e. entries s i = Some e \<longrightarrow>
        resolve e < length (promises s) \<and> promises s ! resolve e = Pending \<and>
        (\<forall>v. vnode e = Some v \<longrightarrow>
           handlerOf v = \<lparr>h_this = ms, h_id = i, h_resolve = resolve e\<rparr>)) \<and>
     (\<forall>i j e e'. entries s i = Some e \<longrightarrow> entries s j = Some e' \<longrightarrow>
        resolve e = resolve e' \<longrightarrow> i = j)"

text \<open>
  What holds of the handlers returned so far: each belongs to the instance \<open>ms\<close>, its
  promise exists, and no entry under another identifier has that promise.
\<close>

definition handlersOk :: "nat \<Rightarrow> handler list \<Rightarrow> state \<Rightarrow> bool" where
  "handlersOk ms hs s \<longleftrightarrow>
     (\<forall>h \<in> set hs. h_this h = ms \<and> h_resolve h < length (promises s) \<and>
        (\<forall>j e. entries s j = Some e \<longrightarrow> resolve e = h_resolve h \<longrightarrow> j = h_id h))"

text \<open>The stack lists the registered identifiers, each once.\<close>

definition stackOk :: "nat \<Rightarrow> state \<Rightarrow> bool" where
  "stackOk ms s \<longleftrightarrow> distinct (stack s ms) \<and> set (stack s ms) = dom (entries s)"

section \<open>Facts about identifiers\<close>

lemma hexDigits_all: "list_all (\<lambda>d. isHexChar (hexDigit d)) [0 ..< 16]"
  by code_simp

lemma isHexChar_hexDigit: "d < 16 \<Longrightarrow> isHexChar (hexDigit d)"
  using hexDigits_all by (simp add: list_all_iff)

lemma list_all_toString16: "list_all isHexChar (toString16 n)"
proof (induction n rule: toString16.induct)
  case (1 n)
  show ?case
  proof (cases "n < 16")
    case True
    then show ?thesis
      by (simp add: toString16.simps [of n] isHexChar_hexDigit)
  next
    case False
    with 1 show ?thesis
      by (simp add: toString16.simps [of n] isHexChar_hexDigit)
  qed
qed

lemma list_all_padStart:
  "list_all P s \<Longrightarrow> P c \<Longrightarrow> list_all P (padStart s len c)"
  by (auto simp: padStart_def list_all_iff)

lemma length_padStart: "length s \<le> len \<Longrightarrow> length (padStart s len c) = len"
  by (simp add: padStart_def)

lemma list_all_substr: "list_all P s \<Longrightarrow> list_all P (substr s start len)"
  by (auto simp: substr_def list_all_iff dest: in_set_takeD in_set_dropD)

lemma toString16_digit: "n < 16 \<Longrightarrow> toString16 n = [hexDigit n]"
  by (simp add: toString16.simps [of n])

lemma toString16_digits:
  "\<not> n < 16 \<Longrightarrow> toString16 n = toString16 (n div 16) @ [hexDigit (n mod 16)]"
  by (simp add: toString16.simps [of n])

lemma replicate_numeral: "replicate (numeral k) x = x # replicate (pred_numeral k) x"
  by (simp add: numeral_eq_Suc)

lemmas modalId_eval =
  modalId_def toString16_digit toString16_digits substr_def padStart_def hexDigit_def
  replicate_numeral

section \<open>Facts about dismissal and creation\<close>

lemma indexOf_lower: "- 1 \<le> indexOf xs x"
  by (induction xs) (auto simp: Let_def)

lemma indexOf_nonneg_iff: "0 \<le> indexOf xs x \<longleftrightarrow> x \<in> set xs"
  using indexOf_lower [of _ x] by (induction xs) (auto simp: Let_def)

lemma splice_js_indexOf:
  "x \<in> set xs \<Longrightarrow> splice_js xs (nat (indexOf xs x)) (Suc 0) = remove1 x xs"
proof (induction xs)
  case Nil
  then show ?case by simp
next
  case (Cons y ys)
  show ?case
  proof (cases "y = x")
    case True
    then show ?thesis by (simp add: splice_js_def)
  next
    case False
    with Cons.prems have mem: "x \<in> set ys" by simp
    then have nonneg: "0 \<le> indexOf ys x" by (simp add: indexOf_nonneg_iff)
    then have "nat (indexOf ys x + 1) = Suc (nat (indexOf ys x))" by simp
    with False nonneg Cons.IH [OF mem] show ?thesis
      by (simp add: splice_js_def Let_def)
  qed
qed

lemma stack_removal:
  "(if 0 \<le> indexOf xs x then splice_js xs (nat (indexOf xs x)) 1 else xs) = remove1 x xs"
  by (simp add: indexOf_nonneg_iff splice_js_indexOf remove1_idem)

lemma emit_fields [simp]:
  "entries (emit this name s) = entries s"
  "modalStack (emit this name s) = modalStack s"
  "stack (emit this name s) = stack s"
  "promises (emit this name s) = promises s"
  "vnodes (emit this name s) = vnodes s"
  "warnings (emit this name s) = warnings s"
  "emitted (emit this name s) = emitted s @ [(this, name, stack s this \<noteq> [])]"
  by (simp_all add: emit_def hasModals_def)

lemma resolvePromise_fields [simp]:
  "entries (resolvePromise p v s) = entries s"
  "modalStack (resolvePromise p v s) = modalStack s"
  "stack (resolvePromise p v s) = stack s"
  "vnodes (resolvePromise p v s) = vnodes s"
  "warnings (resolvePromise p v s) = warnings s"
  "emitted (resolvePromise p v s) = emitted s"
  "length (promises (resolvePromise p v s)) = length (promises s)"
  by (simp_all add: resolvePromise_def)

lemma onDismissModal_eq:
  "onDismissModal h r s =
     emit (h_this h) ''modals'' (emit (h_this h) ''modalCreated''
       (resolvePromise (h_resolve h) r
         (s\<lparr>stack := (stack s)(h_this h := remove1 (h_id h) (stack s (h_this h))),
            entries := (entries s)(h_id h := None)\<rparr>)))"
proof (cases "h_id h \<in> set (stack s (h_this h))")
  case True
  then show ?thesis
    by (simp add: onDismissModal_def Let_def indexOf_nonneg_iff splice_js_indexOf)
next
  case False
  then show ?thesis
    by (simp add: onDismissModal_def Let_def indexOf_nonneg_iff remove1_idem)
qed

lemma promises_resolvePromise:
  "promises (resolvePromise p v s) =
     (if p < length (promises s) \<and> promises s ! p = Pending
      then (promises s)[p := resolution p v] else promises s)"
  by (simp add: resolvePromise_def)

lemma resolution_plain: "\<not> isThenable v \<Longrightarrow> resolution p v = Fulfilled v"
  by (cases v) (simp_all add: resolution_def isThenable_def)

lemma resolution_settles: "resolution p v \<noteq> Pending"
  by (cases v) (simp_all add: resolution_def)

lemma onDismissModal_fields:
  "stack (onDismissModal h r s) = (stack s)(h_this h := remove1 (h_id h) (stack s (h_this h)))"
  "entries (onDismissModal h r s) = (entries s)(h_id h := None)"
  "promises (onDismissModal h r s) =
     (if h_resolve h < length (promises s) \<and> promises s ! h_resolve h = Pending
      then (promises s)[h_resolve h := resolution (h_resolve h) r] else promises s)"
  "modalStack (onDismissModal h r s) = modalStack s"
  "vnodes (onDismissModal h r s) = vnodes s"
  "warnings (onDismissModal h r s) = warnings s"
  "emitted (onDismissModal h r s) = emitted s @
     [(h_this h, ''modalCreated'', remove1 (h_id h) (stack s (h_this h)) \<noteq> []),
      (h_this h, ''modals'', remove1 (h_id h) (stack s (h_this h)) \<noteq> [])]"
  by (simp_all add: onDismissModal_eq promises_resolvePromise)

lemma createModal_registered:
  "modalStack s = Some ms \<Longrightarrow>
   createModal c p n s =
     (s\<lparr>promises := promises s @ [Pending],
        entries := (entries s)(modalId n \<mapsto>
          \<lparr>component = c, props = p, resolve = length (promises s), vnode = None\<rparr>),
        stack := (stack s)(ms := stack s ms @ [modalId n])\<rparr>, length (promises s))"
  by (simp add: createModal_def Let_def)

lemma createModal_unregistered:
  "modalStack s = None \<Longrightarrow>
   createModal c p n s =
     (s\<lparr>promises := promises s @ [Rejected ''No ModalStack avaible''],
        warnings := warnings s @ [''No ModalStack component mounted in current render tree''],
        entries := (entries s)(modalId n \<mapsto>
          \<lparr>component = c, props = p, resolve = length (promises s), vnode = None\<rparr>)\<rparr>,
      length (promises s))"
  by (simp add: createModal_def Let_def rejectPromise_def warn_def)

section \<open>Facts about rendering\<close>

lemma renderEntry_missing:
  "entries s i = None \<Longrightarrow> renderEntry this i s = (s, Inl TypeError)"
  by (simp add: renderEntry_def)

lemma renderEntry_cached:
  "entries s i = Some e \<Longrightarrow> vnode e = Some v \<Longrightarrow> renderEntry this i s = (s, Inr v)"
  by (simp add: renderEntry_def)

lemma renderEntry_first:
  "entries s i = Some e \<Longrightarrow> vnode e = None \<Longrightarrow>
   renderEntry this i s =
     (let v = VDiv (vnodes s + 1) [(''data-modal-'' @ i, [])]
                (VComponent (vnodes s) (component e) (props e)
                   \<lparr>h_this = this, h_id = i, h_resolve = resolve e\<rparr>)
      in (s\<lparr>vnodes := vnodes s + 2,
             emitted := emitted s @
               [(this, ''modalDismissed'', stack s this \<noteq> []), (this, ''modals'', stack s this \<noteq> [])],
             entries := (entries s)(i \<mapsto> e\<lparr>vnode := Some v\<rparr>)\<rparr>, Inr v))"
  by (simp add: renderEntry_def Let_def emit_def hasModals_def)

lemma renderEntry_frame [simp]:
  "stack (fst (renderEntry this i s)) = stack s"
  "modalStack (fst (renderEntry this i s)) = modalStack s"
  "promises (fst (renderEntry this i s)) = promises s"
  "warnings (fst (renderEntry this i s)) = warnings s"
  by (simp_all add: renderEntry_def Let_def split: option.splits)

lemma fst_renderAll_Cons:
  "fst (renderAll this (i # ids) s) =
     (case snd (renderEntry this i s) of
        Inl e \<Rightarrow> fst (renderEntry this i s)
      | Inr v \<Rightarrow> fst (renderAll this ids (fst (renderEntry this i s))))"
  by (simp split: prod.splits sum.splits)

lemma renderAll_preserves:
  assumes "\<And>i s. P s \<Longrightarrow> P (fst (renderEntry this i s))" and "P s"
  shows "P (fst (renderAll this ids s))"
  using assms(2)
proof (induction ids arbitrary: s)
  case Nil
  then show ?case by simp
next
  case (Cons i ids)
  from Cons.prems have "P (fst (renderEntry this i s))"
    by (rule assms(1))
  then show ?case
    using Cons.IH by (simp add: fst_renderAll_Cons del: renderAll.simps split: sum.splits)
qed

lemma renderAll_frame [simp]:
  "stack (fst (renderAll this ids s)) = stack s"
  "modalStack (fst (renderAll this ids s)) = modalStack s"
  "promises (fst (renderAll this ids s)) = promises s"
  "warnings (fst (renderAll this ids s)) = warnings s"
proof -
  show "stack (fst (renderAll this ids s)) = stack s"
    by (rule renderAll_preserves [where P = "\<lambda>t. stack t = stack s"]) simp_all
  show "modalStack (fst (renderAll this ids s)) = modalStack s"
    by (rule renderAll_preserves [where P = "\<lambda>t. modalStack t = modalStack s"]) simp_all
  show "promises (fst (renderAll this ids s)) = promises s"
    by (rule renderAll_preserves [where P = "\<lambda>t. promises t = promises s"]) simp_all
  show "warnings (fst (renderAll this ids s)) = warnings s"
    by (rule renderAll_preserves [where P = "\<lambda>t. warnings t = warnings s"]) simp_all
qed

lemma rendered_refl: "rendered this i e e"
  by (simp add: rendered_def)

lemma rendered_trans: "rendered this i e e' \<Longrightarrow> rendered this i e' e'' \<Longrightarrow> rendered this i e e''"
  by (auto simp: rendered_def)

lemma renderEntry_entries:
  "entries (fst (renderEntry this i s)) j =
     (case entries s j of None \<Rightarrow> None
      | Some e \<Rightarrow>
          if j = i \<and> vnode e = None
          then Some (e\<lparr>vnode := Some (VDiv (vnodes s + 1) [(''data-modal-'' @ i, [])]
                  (VComponent (vnodes s) (component e) (props e)
                     \<lparr>h_this = this, h_id = i, h_resolve = resolve e\<rparr>))\<rparr>)
          else Some e)"
  by (auto simp: renderEntry_def Let_def emit_def split: option.splits)

lemma renderEntry_None:
  "entries s j = None \<Longrightarrow> entries (fst (renderEntry this i s)) j = None"
  by (simp add: renderEntry_entries)

lemma renderEntry_Some:
  "entries s j = Some e \<Longrightarrow>
   \<exists>e'. entries (fst (renderEntry this i s)) j = Some e' \<and> rendered this j e e'"
  by (auto simp: renderEntry_entries rendered_def)

lemma renderAll_None:
  "entries s j = None \<Longrightarrow> entries (fst (renderAll this ids s)) j = None"
  by (rule renderAll_preserves [where P = "\<lambda>t. entries t j = None"])
     (simp_all add: renderEntry_None)

lemma renderAll_Some:
  assumes "entries s j = Some e"
  shows "\<exists>e'. entries (fst (renderAll this ids s)) j = Some e' \<and> rendered this j e e'"
proof (rule renderAll_preserves
    [where P = "\<lambda>t. \<exists>e'. entries t j = Some e' \<and> rendered this j e e'"])
  show "\<exists>e'. entries s j = Some e' \<and> rendered this j e e'"
    using assms by (simp add: rendered_refl)
next
  fix i and t :: state
  assume "\<exists>e'. entries t j = Some e' \<and> rendered this j e e'"
  then obtain e' where e': "entries t j = Some e'" "rendered this j e e'"
    by blast
  from renderEntry_Some [OF e'(1)] obtain e''
    where "entries (fst (renderEntry this i t)) j = Some e''" "rendered this j e' e''"
    by blast
  with e'(2) show "\<exists>e'. entries (fst (renderEntry this i t)) j = Some e' \<and> rendered this j e e'"
    by (blast intro: rendered_trans)
qed

lemma renderAll_keeps_cached:
  "entries s j = Some e \<Longrightarrow> vnode e = Some v \<Longrightarrow> entries (fst (renderAll this ids s)) j = Some e"
  by (rule renderAll_preserves [where P = "\<lambda>t. entries t j = Some e"])
     (simp_all add: renderEntry_entries)

section \<open>Rendering caches\<close>

lemma renderAll_Cons_Inr:
  assumes "renderAll this (i # ids) s = (s', Inr ns)"
  obtains s1 v vs where "renderEntry this i s = (s1, Inr v)" "renderAll this ids s1 = (s', Inr vs)"
    "ns = v # vs"
  using assms by (auto split: prod.splits sum.splits)

lemma renderEntry_caches:
  assumes "renderEntry this i s = (s', Inr v)"
  shows "\<exists>e. entries s' i = Some e \<and> vnode e = Some v"
  using assms by (auto simp: renderEntry_def Let_def split: option.splits)

lemma renderAll_caches:
  assumes "renderAll this ids s = (s', Inr ns)" and "k < length ids"
  shows "\<exists>e. entries s' (ids ! k) = Some e \<and> vnode e = Some (ns ! k)"
  using assms
proof (induction ids arbitrary: s ns k)
  case Nil
  then show ?case by simp
next
  case (Cons i ids)
  from Cons.prems(1) obtain s1 v vs
    where r: "renderEntry this i s = (s1, Inr v)" "renderAll this ids s1 = (s', Inr vs)"
      "ns = v # vs"
    by (rule renderAll_Cons_Inr)
  show ?case
  proof (cases k)
    case 0
    from renderEntry_caches [OF r(1)] obtain e where e: "entries s1 i = Some e" "vnode e = Some v"
      by blast
    from renderAll_keeps_cached [OF e, of this ids] r(2) have "entries s' i = Some e"
      by simp
    with e(2) r(3) 0 show ?thesis by simp
  next
    case (Suc k')
    with Cons.prems(2) have "k' < length ids" by simp
    from Cons.IH [OF r(2) this] r(3) Suc show ?thesis by simp
  qed
qed

lemma renderAll_returns_cached:
  assumes "renderAll this ids s = (s', Inr ns)" and "k < length ids"
    and "entries s (ids ! k) = Some e" and "vnode e = Some v"
  shows "ns ! k = v"
  using assms
proof (induction ids arbitrary: s ns k)
  case Nil
  then show ?case by simp
next
  case (Cons i ids)
  from Cons.prems(1) obtain s1 w vs
    where r: "renderEntry this i s = (s1, Inr w)" "renderAll this ids s1 = (s', Inr vs)"
      "ns = w # vs"
    by (rule renderAll_Cons_Inr)
  show ?case
  proof (cases k)
    case 0
    with Cons.prems(3,4) r(1) have "w = v"
      by (simp add: renderEntry_cached)
    with r(3) 0 show ?thesis by simp
  next
    case (Suc k')
    with Cons.prems(2) have k': "k' < length ids" by simp
    from Cons.prems(3) Suc have "entries s (ids ! k') = Some e" by simp
    with Cons.prems(4) have "entries (fst (renderEntry this i s)) (ids ! k') = Some e"
      by (simp add: renderEntry_entries)
    with r(1) have "entries s1 (ids ! k') = Some e" by simp
    from Cons.IH [OF r(2) k' this Cons.prems(4)] r(3) Suc show ?thesis by simp
  qed
qed

lemma renderAll_length:
  "renderAll this ids s = (s', Inr ns) \<Longrightarrow> length ns = length ids"
proof (induction ids arbitrary: s ns)
  case Nil
  then show ?case by simp
next
  case (Cons i ids)
  from Cons.prems obtain s1 v vs
    where "renderAll this ids s1 = (s', Inr vs)" "ns = v # vs"
    by (rule renderAll_Cons_Inr)
  with Cons.IH show ?case by simp
qed

section \<open>The invariants hold\<close>

lemma registryOk_mounted_init: "registryOk ms (mounted ms init)"
  by (simp add: registryOk_def mounted_def init_def)

lemma stackOk_mounted_init: "stackOk ms (mounted ms init)"
  by (simp add: stackOk_def mounted_def init_def)

lemma handlersOk_Nil: "handlersOk ms [] s"
  by (simp add: handlersOk_def)

lemma registryOk_createModal:
  assumes ok: "registryOk ms s"
  shows "registryOk ms (fst (createModal c p n s))"
proof -
  from ok have reg: "modalStack s = Some ms"
    by (simp add: registryOk_def)
  from ok have bound: "\<And>i e. entries s i = Some e \<Longrightarrow> resolve e < length (promises s)"
    by (simp add: registryOk_def)
  show ?thesis
    using ok
    unfolding createModal_registered [OF reg] registryOk_def
    by (auto simp: nth_append dest: bound)
qed

lemma handlersOk_createModal:
  assumes ok: "handlersOk ms hs s" and reg: "modalStack s = Some ms"
  shows "handlersOk ms hs (fst (createModal c p n s))"
  using ok unfolding createModal_registered [OF reg] handlersOk_def by auto

lemma stackOk_createModal:
  assumes ok: "stackOk ms s" and reg: "modalStack s = Some ms"
    and new: "entries s (modalId n) = None"
  shows "stackOk ms (fst (createModal c p n s))"
proof -
  from new have "modalId n \<notin> dom (entries s)"
    by (simp add: domIff)
  with ok have "modalId n \<notin> set (stack s ms)"
    by (simp add: stackOk_def)
  with ok show ?thesis
    unfolding createModal_registered [OF reg] stackOk_def by auto
qed

lemma present_origin:
  assumes reg: "modalStack s = Some ms" and e': "entries (present s) j = Some e'"
  shows "\<exists>e. entries s j = Some e \<and> rendered ms j e e'"
proof (cases "entries s j")
  case None
  from renderAll_None [OF None, of ms "stack s ms"] e' reg show ?thesis
    by (simp add: present_def render_def)
next
  case (Some e)
  from renderAll_Some [OF Some, of ms "stack s ms"] e' reg Some show ?thesis
    by (auto simp: present_def render_def)
qed

lemma rendered_resolve: "rendered this j e e' \<Longrightarrow> resolve e' = resolve e"
  by (auto simp: rendered_def)

lemma present_frame:
  "stack (present s) = stack s" "modalStack (present s) = modalStack s"
  "promises (present s) = promises s"
  by (simp_all add: present_def render_def split: option.splits)

lemma registryOk_present:
  assumes ok: "registryOk ms s"
  shows "registryOk ms (present s)"
proof -
  from ok have reg: "modalStack s = Some ms"
    by (simp add: registryOk_def)
  note origin = present_origin [OF reg]
  show ?thesis
    unfolding registryOk_def present_frame
  proof (intro conjI allI impI)
    show "modalStack s = Some ms" by (rule reg)
  next
    fix i e'
    assume "entries (present s) i = Some e'"
    from origin [OF this] obtain e where e: "entries s i = Some e" "rendered ms i e e'"
      by blast
    with ok show "resolve e' < length (promises s)" "promises s ! resolve e' = Pending"
      by (auto simp: registryOk_def rendered_resolve [OF e(2)])
    fix v
    assume "vnode e' = Some v"
    with e ok show "handlerOf v = \<lparr>h_this = ms, h_id = i, h_resolve = resolve e'\<rparr>"
      by (auto simp: registryOk_def rendered_def)
  next
    fix i j e1 e2
    assume a: "entries (present s) i = Some e1" "entries (present s) j = Some e2"
      "resolve e1 = resolve e2"
    from origin [OF a(1)] obtain d1 where d1: "entries s i = Some d1" "rendered ms i d1 e1"
      by blast
    from origin [OF a(2)] obtain d2 where d2: "entries s j = Some d2" "rendered ms j d2 e2"
      by blast
    from a(3) have "resolve d1 = resolve d2"
      by (simp add: rendered_resolve [OF d1(2)] rendered_resolve [OF d2(2)])
    with ok d1(1) d2(1) show "i = j"
      unfolding registryOk_def by blast
  qed
qed

lemma handlersOk_present:
  assumes ok: "handlersOk ms hs s" and reg: "modalStack s = Some ms"
  shows "handlersOk ms hs (present s)"
  unfolding handlersOk_def present_frame
proof (intro ballI conjI allI impI)
  fix h
  assume h: "h \<in> set hs"
  with ok show "h_this h = ms" "h_resolve h < length (promises s)"
    by (simp_all add: handlersOk_def)
  fix j e'
  assume "entries (present s) j = Some e'" and r: "resolve e' = h_resolve h"
  from present_origin [OF reg this(1)] obtain e
    where e: "entries s j = Some e" "rendered ms j e e'"
    by blast
  from r have "resolve e = h_resolve h"
    by (simp add: rendered_resolve [OF e(2)])
  with ok h e(1) show "j = h_id h"
    unfolding handlersOk_def by blast
qed

text \<open>The handlers a rendering returns are those of the entries it has cached.\<close>

lemma handlersOk_presented:
  assumes ok: "registryOk ms s"
  shows "handlersOk ms (presented s) (present s)"
proof -
  from ok have reg: "modalStack s = Some ms"
    by (simp add: registryOk_def)
  have ok': "registryOk ms (present s)"
    using ok by (rule registryOk_present)
  show ?thesis
  proof (cases "snd (render ms s)")
    case (Inl err)
    with reg show ?thesis
      by (simp add: presented_def nodeHandlers_def handlersOk_def)
  next
    case (Inr ns)
    then obtain s' where rr: "render ms s = (s', Inr ns)"
      by (cases "render ms s") simp
    with reg have "present s = s'"
      by (simp add: present_def)
    with rr have r: "renderAll ms (stack s ms) s = (present s, Inr ns)"
      by (simp add: render_def)
    have len: "length ns = length (stack s ms)"
      using r by (rule renderAll_length)
    have ph: "presented s = map handlerOf ns"
      using Inr reg by (simp add: presented_def nodeHandlers_def)
    have each: "h_this h = ms \<and> h_resolve h < length (promises (present s)) \<and>
        (\<forall>j e. entries (present s) j = Some e \<longrightarrow> resolve e = h_resolve h \<longrightarrow> j = h_id h)"
      if "h \<in> set (map handlerOf ns)" for h
    proof -
      from that obtain k where k: "k < length ns" "h = handlerOf (ns ! k)"
        by (auto simp: in_set_conv_nth)
      from k(1) len have "k < length (stack s ms)"
        by simp
      from renderAll_caches [OF r this] obtain e
        where e: "entries (present s) (stack s ms ! k) = Some e" "vnode e = Some (ns ! k)"
        by blast
      with ok' k(2)
      have h: "h = \<lparr>h_this = ms, h_id = stack s ms ! k, h_resolve = resolve e\<rparr>"
        by (simp add: registryOk_def)
      from ok' e(1) have bound: "resolve e < length (promises (present s))"
        by (simp add: registryOk_def)
      have uniq: "j = stack s ms ! k"
        if "entries (present s) j = Some e'" "resolve e' = resolve e" for j e'
        using ok' e(1) that unfolding registryOk_def by blast
      show ?thesis
      proof (intro conjI allI impI)
        show "h_this h = ms" by (simp add: h)
        show "h_resolve h < length (promises (present s))" using bound by (simp add: h)
      next
        fix j e'
        assume "entries (present s) j = Some e'" "resolve e' = h_resolve h"
        then have "j = stack s ms ! k"
          by (intro uniq [of j e']) (simp_all add: h)
        then show "j = h_id h" by (simp add: h)
      qed
    qed
    show ?thesis
      unfolding handlersOk_def ph using each by blast
  qed
qed

lemma handlersOk_append:
  "handlersOk ms hs s \<Longrightarrow> handlersOk ms hs' s \<Longrightarrow> handlersOk ms (hs @ hs') s"
  by (auto simp: handlersOk_def)

lemma dom_entries_present: "dom (entries (present s)) = dom (entries s)"
proof (cases "modalStack s")
  case None
  then show ?thesis by (simp add: present_def)
next
  case (Some ms)
  have "entries (fst (renderAll ms (stack s ms) s)) j = None \<longleftrightarrow> entries s j = None" for j
    using renderAll_None [of s j ms "stack s ms"] renderAll_Some [of s j _ ms "stack s ms"]
    by (cases "entries s j") auto
  with Some show ?thesis
    by (auto simp: present_def render_def dom_def)
qed

lemma stackOk_present: "stackOk ms s \<Longrightarrow> stackOk ms (present s)"
  by (simp add: stackOk_def dom_entries_present present_frame)

lemma registryOk_onDismissModal:
  assumes ok: "registryOk ms s" and h: "handlersOk ms [h] s"
  shows "registryOk ms (onDismissModal h r s)"
proof -
  have other: "resolve e \<noteq> h_resolve h" if "entries s j = Some e" "j \<noteq> h_id h" for j e
    using h that unfolding handlersOk_def by auto
  have still: "(promises s)[h_resolve h := resolution (h_resolve h) r] ! resolve e = Pending"
    if "entries s j = Some e" "j \<noteq> h_id h" for j e
  proof -
    from ok that(1) have "promises s ! resolve e = Pending"
      by (auto simp: registryOk_def)
    with other [OF that] show ?thesis by simp
  qed
  show ?thesis
    unfolding registryOk_def
    using ok still
    by (auto simp: onDismissModal_fields registryOk_def split: if_splits)
qed

lemma handlersOk_onDismissModal:
  "handlersOk ms hs s \<Longrightarrow> handlersOk ms hs (onDismissModal h r s)"
  by (auto simp: handlersOk_def onDismissModal_fields split: if_splits)

lemma stackOk_onDismissModal:
  assumes st: "stackOk ms s" and h: "h_this h = ms"
  shows "stackOk ms (onDismissModal h r s)"
  using st h unfolding stackOk_def by (auto simp: onDismissModal_fields)

lemma handlersOk_member: "handlersOk ms hs s \<Longrightarrow> h \<in> set hs \<Longrightarrow> handlersOk ms [h] s"
  by (simp add: handlersOk_def)

text \<open>One operation of an admissible sequence keeps the two invariants.\<close>

lemma invariants_step:
  assumes ok: "registryOk ms s" and hs: "handlersOk ms hs s" and f: "fireable hs x"
  shows "registryOk ms (step s x) \<and> handlersOk ms (handlersAfter hs s x) (step s x)"
proof -
  from ok have reg: "modalStack s = Some ms"
    by (simp add: registryOk_def)
  show ?thesis
  proof (cases x)
    case (Create c p n)
    with ok hs reg show ?thesis
      by (simp add: registryOk_createModal handlersOk_createModal)
  next
    case Present
    with ok hs reg show ?thesis
      by (simp add: registryOk_present handlersOk_present handlersOk_presented
          handlersOk_append)
  next
    case (Dismiss h r)
    with f have "h \<in> set hs" by simp
    with hs have "handlersOk ms [h] s" by (rule handlersOk_member)
    with ok hs Dismiss show ?thesis
      by (simp add: registryOk_onDismissModal handlersOk_onDismissModal)
  qed
qed

lemma registryOk_run:
  "registryOk ms s \<Longrightarrow> handlersOk ms hs s \<Longrightarrow> admissible hs s ops \<Longrightarrow>
   registryOk ms (run s ops)"
proof (induction ops arbitrary: s hs)
  case Nil
  then show ?case by (simp add: run_def)
next
  case (Cons x ops)
  from Cons.prems(3) have f: "fireable hs x" and rest: "admissible (handlersAfter hs s x) (step s x) ops"
    by simp_all
  from invariants_step [OF Cons.prems(1,2) f] Cons.IH [OF _ _ rest]
  have "registryOk ms (run (step s x) ops)"
    by blast
  then show ?case by (simp add: run_def)
qed

lemma stackOk_step:
  assumes ok: "registryOk ms s" and hs: "handlersOk ms hs s" and f: "fireable hs x"
    and st: "stackOk ms s" and new: "newIds s [x]"
  shows "stackOk ms (step s x)"
proof -
  from ok have reg: "modalStack s = Some ms"
    by (simp add: registryOk_def)
  show ?thesis
  proof (cases x)
    case (Create c p n)
    with st reg new show ?thesis
      by (simp add: stackOk_createModal)
  next
    case Present
    with st show ?thesis
      by (simp add: stackOk_present)
  next
    case (Dismiss h r)
    with f hs have "h_this h = ms"
      by (simp add: handlersOk_def)
    with st Dismiss show ?thesis
      by (simp add: stackOk_onDismissModal)
  qed
qed

lemma newIds_Cons: "newIds s (x # ops) \<longleftrightarrow> newIds s [x] \<and> newIds (step s x) ops"
  by (cases x) simp_all

lemma stackOk_run:
  "registryOk ms s \<Longrightarrow> handlersOk ms hs s \<Longrightarrow> stackOk ms s \<Longrightarrow> admissible hs s ops \<Longrightarrow>
   newIds s ops \<Longrightarrow> stackOk ms (run s ops)"
proof (induction ops arbitrary: s hs)
  case Nil
  then show ?case by (simp add: run_def)
next
  case (Cons x ops)
  from Cons.prems(4) have f: "fireable hs x" and rest: "admissible (handlersAfter hs s x) (step s x) ops"
    by simp_all
  from Cons.prems(5) have new: "newIds s [x]" "newIds (step s x) ops"
    by (simp_all add: newIds_Cons [of s x ops])
  from invariants_step [OF Cons.prems(1,2) f]
  have inv: "registryOk ms (step s x)" "handlersOk ms (handlersAfter hs s x) (step s x)"
    by simp_all
  from stackOk_step [OF Cons.prems(1,2) f Cons.prems(3) new(1)]
  have "stackOk ms (step s x)" .
  from Cons.IH [OF inv this rest new(2)] show ?case
    by (simp add: run_def)
qed

lemma newIds_take: "newIds s ops \<Longrightarrow> newIds s (take k ops)"
proof (induction ops arbitrary: s k)
  case Nil
  then show ?case by simp
next
  case (Cons x ops)
  show ?case
  proof (cases k)
    case 0
    then show ?thesis by simp
  next
    case (Suc k')
    with Cons show ?thesis by (cases x) simp_all
  qed
qed

lemma admissible_take: "admissible hs s ops \<Longrightarrow> admissible hs s (take k ops)"
proof (induction ops arbitrary: hs s k)
  case Nil
  then show ?case by simp
next
  case (Cons x ops)
  show ?case
  proof (cases k)
    case 0
    then show ?thesis by simp
  next
    case (Suc k')
    with Cons show ?thesis by simp
  qed
qed

lemma stackOk_length: "stackOk ms s \<Longrightarrow> length (stack s ms) = card (dom (entries s))"
  unfolding stackOk_def by (metis distinct_card)

section \<open>A settled promise stays as it is\<close>

lemma onDismissModal_keeps_settled:
  assumes "p < length (promises s)" and "promises s ! p \<noteq> Pending"
  shows "p < length (promises (onDismissModal h r s)) \<and>
         promises (onDismissModal h r s) ! p = promises s ! p"
  using assms by (auto simp: onDismissModal_fields nth_list_update)

lemma step_keeps_settled:
  assumes "p < length (promises s)" and "promises s ! p \<noteq> Pending"
  shows "p < length (promises (step s x)) \<and> promises (step s x) ! p = promises s ! p"
proof (cases x)
  case (Create c pr n)
  with assms show ?thesis
    by (simp add: createModal_def Let_def rejectPromise_def warn_def nth_append
        split: option.splits)
next
  case Present
  then show ?thesis
    using assms by (simp add: present_def render_def split: option.splits)
next
  case (Dismiss h r)
  with onDismissModal_keeps_settled [OF assms] show ?thesis
    by simp
qed

lemma run_keeps_settled:
  "p < length (promises s) \<Longrightarrow> promises s ! p \<noteq> Pending \<Longrightarrow>
   p < length (promises (run s ops)) \<and> promises (run s ops) ! p = promises s ! p"
proof (induction ops arbitrary: s)
  case Nil
  then show ?case by (simp add: run_def)
next
  case (Cons x ops)
  from step_keeps_settled [OF Cons.prems]
  have st: "p < length (promises (step s x))" "promises (step s x) ! p = promises s ! p"
    by simp_all
  with Cons.prems(2) have "promises (step s x) ! p \<noteq> Pending"
    by simp
  from Cons.IH [OF st(1) this] st(2) show ?case
    by (simp add: run_def)
qed

lemma createModal_stores_promise:
  "\<exists>e. entries (fst (createModal c pr n s)) (modalId n) = Some e \<and>
       resolve e = snd (createModal c pr n s) \<and> vnode e = None"
  by (simp add: createModal_def Let_def split: option.splits)

section \<open>The promise of an entry\<close>

lemma entries_createModal:
  "entries (fst (createModal c pr n s)) =
     (entries s)(modalId n \<mapsto>
        \<lparr>component = c, props = pr, resolve = length (promises s), vnode = None\<rparr>)"
  by (simp add: createModal_def Let_def rejectPromise_def warn_def split: option.splits)

lemma entry_promise_present:
  assumes "\<forall>e. entries s i = Some e \<longrightarrow> resolve e = P"
  shows "\<forall>e. entries (present s) i = Some e \<longrightarrow> resolve e = P"
proof (cases "modalStack s")
  case None
  with assms show ?thesis by (simp add: present_def)
next
  case (Some ms)
  show ?thesis
  proof (intro allI impI)
    fix e'
    assume "entries (present s) i = Some e'"
    from present_origin [OF Some this] obtain e
      where e: "entries s i = Some e" "rendered ms i e e'"
      by blast
    from assms e(1) have "resolve e = P"
      by blast
    with rendered_resolve [OF e(2)] show "resolve e' = P"
      by simp
  qed
qed

lemma entry_promise_step:
  assumes "\<not> draws i x" and "\<forall>e. entries s i = Some e \<longrightarrow> resolve e = P"
  shows "\<forall>e. entries (step s x) i = Some e \<longrightarrow> resolve e = P"
proof (cases x)
  case (Create c pr n)
  with assms(1) have "modalId n \<noteq> i"
    by simp
  then have "entries (step s x) i = entries s i"
    by (simp add: Create entries_createModal)
  with assms(2) show ?thesis
    by metis
next
  case Present
  with entry_promise_present [OF assms(2)] show ?thesis
    by simp
next
  case (Dismiss h r)
  have "entries (step s x) i = (if i = h_id h then None else entries s i)"
    by (simp add: Dismiss onDismissModal_fields)
  with assms(2) show ?thesis
    by (metis option.distinct(1))
qed

lemma entry_promise_run:
  "list_all (\<lambda>x. \<not> draws i x) ops \<Longrightarrow> \<forall>e. entries s i = Some e \<longrightarrow> resolve e = P \<Longrightarrow>
   \<forall>e. entries (run s ops) i = Some e \<longrightarrow> resolve e = P"
proof (induction ops arbitrary: s)
  case Nil
  then show ?case by (simp add: run_def)
next
  case (Cons x ops)
  from Cons.prems have "\<not> draws i x" "list_all (\<lambda>x. \<not> draws i x) ops"
    by simp_all
  from Cons.IH [OF this(2) entry_promise_step [OF this(1) Cons.prems(2)]]
  have "\<forall>e. entries (run (step s x) ops) i = Some e \<longrightarrow> resolve e = P" .
  moreover have "run s (x # ops) = run (step s x) ops"
    by (simp add: run_def)
  ultimately show ?case
    by (simp only:)
qed

section \<open>Evaluating the module on given inputs\<close>

lemmas module_eval =
  run_def mounted_def init_def createModal_def rejectPromise_def warn_def present_def render_def
  renderEntry_def presented_def nodeHandlers_def onDismissModal_eq emit_def hasModals_def
  resolvePromise_def resolution_def Let_def

text \<open>Two values of the random source that differ and give the same identifier: only
  the leading eight digits of the hexadecimal string are kept.\<close>

lemma modalId_collision:
  "modalId 4294967296 = ''10000000''" "modalId 4294967297 = ''10000000''"
  by (simp_all add: modalId_eval)

lemma modalId_small: "modalId 10 = ''0000000a''" "modalId 11 = ''0000000b''"
  by (simp_all add: modalId_eval)

section \<open>The properties of the specification\<close>

subsection \<open>Creation without a controller\<close>

text \<open>
  C1. When no \<^verbatim>\<open>ModalStack\<close> instance is registered, \<^verbatim>\<open>createModal\<close> rejects the
  promise it returns and leaves the stack of every instance as it was. The registry
  does not stay as it was: the executor goes on after \<^verbatim>\<open>reject\<close>, and
  \<^verbatim>\<open>entries[id] = { component, props, resolve }\<close> stores the entry of the rejected
  promise.
\<close>

theorem createModal_without_controller:
  assumes "modalStack s = None"
  shows "promises (fst (createModal c pr n s)) ! snd (createModal c pr n s) =
           Rejected ''No ModalStack avaible'' \<and>
         stack (fst (createModal c pr n s)) = stack s \<and>
         entries (fst (createModal c pr n s)) =
           (entries s)(modalId n \<mapsto>
              \<lparr>component = c, props = pr, resolve = snd (createModal c pr n s), vnode = None\<rparr>)"
  by (simp add: createModal_unregistered [OF assms])

theorem createModal_without_controller_witness:
  "modalStack init = None \<and> entries init = Map.empty \<and>
   promises (fst (createModal ''A'' None 10 init)) ! snd (createModal ''A'' None 10 init) =
     Rejected ''No ModalStack avaible'' \<and>
   stack (fst (createModal ''A'' None 10 init)) = stack init \<and>
   entries (fst (createModal ''A'' None 10 init)) =
     (entries init)(modalId 10 \<mapsto>
        \<lparr>component = ''A'', props = None, resolve = snd (createModal ''A'' None 10 init),
          vnode = None\<rparr>)"
proof -
  have h: "modalStack init = None" "entries init = Map.empty"
    by (simp_all add: init_def)
  from h createModal_without_controller [OF h(1), of "''A''" None 10]
  show ?thesis by blast
qed

subsection \<open>Dismissal settles the promise once\<close>

text \<open>
  C2. Take a call of \<^verbatim>\<open>createModal\<close> made while an instance is registered, in an
  admissible sequence of creations, renderings and dismissals, and let no later
  creation of the sequence draw the same identifier. If the identifier then has an
  entry in the registry that has been rendered (the closure \<^verbatim>\<open>onDismissModal\<close> exists
  from the first rendering on), the promise that this call returned is pending;
  calling the handler of the entry's node with a result that is not a thenable fulfils
  that promise with exactly this result; and after any further operations, calling
  the same handler again, with any result, leaves the promise fulfilled with the
  first one. The second call does run \<^verbatim>\<open>entry.resolve\<close>, which finds the promise
  settled.
\<close>

theorem dismissal_fulfils_once:
  assumes "admissible [] (mounted ms init) (pre @ Create c pr n # post)"
    and "list_all (\<lambda>x. \<not> draws (modalId n) x) post"
    and "entries (run (mounted ms init) (pre @ Create c pr n # post)) (modalId n) = Some e"
    and "vnode e = Some v"
    and "\<not> isThenable r"
  shows "promises (run (mounted ms init) (pre @ Create c pr n # post)) !
           snd (createModal c pr n (run (mounted ms init) pre)) = Pending \<and>
         promises (onDismissModal (handlerOf v) r
            (run (mounted ms init) (pre @ Create c pr n # post))) !
           snd (createModal c pr n (run (mounted ms init) pre)) = Fulfilled r \<and>
         promises (onDismissModal (handlerOf v) r'
            (run (onDismissModal (handlerOf v) r
               (run (mounted ms init) (pre @ Create c pr n # post))) ops')) !
           snd (createModal c pr n (run (mounted ms init) pre)) = Fulfilled r"
proof -
  define s where "s = run (mounted ms init) (pre @ Create c pr n # post)"
  define P where "P = snd (createModal c pr n (run (mounted ms init) pre))"
  have ok: "registryOk ms s"
    unfolding s_def using assms(1)
    by (intro registryOk_run [where hs = "[]"] registryOk_mounted_init handlersOk_Nil)
  from assms(3) have e: "entries s (modalId n) = Some e"
    by (simp add: s_def)
  have split: "s = run (step (run (mounted ms init) pre) (Create c pr n)) post"
    by (simp add: s_def run_def)
  have "\<forall>e. entries (step (run (mounted ms init) pre) (Create c pr n)) (modalId n) = Some e \<longrightarrow>
      resolve e = P"
    using createModal_stores_promise [of c pr n "run (mounted ms init) pre"]
    by (auto simp: P_def)
  from entry_promise_run [OF assms(2) this] e have res: "resolve e = P"
    by (simp add: split)
  from ok e have pend: "P < length (promises s)" "promises s ! P = Pending"
    by (auto simp: registryOk_def res [symmetric])
  from ok e assms(4) have h: "handlerOf v = \<lparr>h_this = ms, h_id = modalId n, h_resolve = P\<rparr>"
    by (auto simp: registryOk_def res [symmetric])
  define d where "d = onDismissModal (handlerOf v) r s"
  from pend assms(5) have first: "promises d ! P = Fulfilled r"
    by (simp add: d_def h onDismissModal_fields resolution_plain)
  from pend have len: "P < length (promises d)"
    by (simp add: d_def h onDismissModal_fields)
  from first have settled: "promises d ! P \<noteq> Pending"
    by simp
  define t where "t = run d ops'"
  from run_keeps_settled [OF len settled, of ops'] first
  have later: "P < length (promises t)" "promises t ! P = Fulfilled r"
    by (simp_all add: t_def)
  then have "promises t ! P \<noteq> Pending"
    by simp
  from onDismissModal_keeps_settled [OF later(1) this, of "handlerOf v" r'] later(2)
  have "promises (onDismissModal (handlerOf v) r' t) ! P = Fulfilled r"
    by simp
  with pend first show ?thesis
    by (simp add: s_def t_def d_def P_def)
qed

theorem dismissal_fulfils_once_witness:
  "admissible [] (mounted 0 init) ([] @ Create ''A'' None 10 # [Present]) \<and>
   list_all (\<lambda>x. \<not> draws (modalId 10) x) [Present] \<and>
   entries (run (mounted 0 init) ([] @ Create ''A'' None 10 # [Present])) (modalId 10) =
     Some \<lparr>component = ''A'', props = None, resolve = 0,
       vnode = Some (VDiv 1 [(''data-modal-0000000a'', [])]
         (VComponent 0 ''A'' None \<lparr>h_this = 0, h_id = ''0000000a'', h_resolve = 0\<rparr>))\<rparr> \<and>
   \<not> isThenable (JString ''x'') \<and>
   snd (createModal ''A'' None 10 (run (mounted 0 init) [])) = 0 \<and>
   promises (run (mounted 0 init) ([] @ Create ''A'' None 10 # [Present])) ! 0 = Pending \<and>
   promises (onDismissModal \<lparr>h_this = 0, h_id = ''0000000a'', h_resolve = 0\<rparr> (JString ''x'')
      (run (mounted 0 init) ([] @ Create ''A'' None 10 # [Present]))) ! 0 =
     Fulfilled (JString ''x'') \<and>
   promises (onDismissModal \<lparr>h_this = 0, h_id = ''0000000a'', h_resolve = 0\<rparr> (JThenable 7)
      (run (onDismissModal \<lparr>h_this = 0, h_id = ''0000000a'', h_resolve = 0\<rparr> (JString ''x'')
         (run (mounted 0 init) ([] @ Create ''A'' None 10 # [Present]))) [])) ! 0 =
     Fulfilled (JString ''x'')"
proof -
  let ?v = "VDiv 1 [(''data-modal-0000000a'', [])]
         (VComponent 0 ''A'' None \<lparr>h_this = 0, h_id = ''0000000a'', h_resolve = 0\<rparr>)"
  have a: "admissible [] (mounted 0 init) ([] @ Create ''A'' None 10 # [Present])"
    by simp
  have l: "list_all (\<lambda>x. \<not> draws (modalId 10) x) [Present]"
    by simp
  have h: "entries (run (mounted 0 init) ([] @ Create ''A'' None 10 # [Present])) (modalId 10) =
     Some \<lparr>component = ''A'', props = None, resolve = 0, vnode = Some ?v\<rparr>"
    by (simp add: modalId_small module_eval)
  have v: "vnode \<lparr>component = ''A'', props = None, resolve = 0, vnode = Some ?v\<rparr> = Some ?v"
    by simp
  have p: "\<not> isThenable (JString ''x'')"
    by (simp add: isThenable_def)
  have q: "snd (createModal ''A'' None 10 (run (mounted 0 init) [])) = 0"
    by (simp add: module_eval)
  from a l h p q dismissal_fulfils_once [OF a l h v p, of "JThenable 7" "[]"]
  show ?thesis by simp
qed

text \<open>
  Without the two conditions the promise of a call is not fulfilled with the result.
  When a second creation draws the identifier \<open>''10000000''\<close> of the first, the
  identifier is in the stack and in the registry, the rendering returns one handler
  for it, and calling this handler until the stack is empty leaves the promise of
  the first call pending. And a result that is a thenable is adopted: the promise is
  not fulfilled with it.
\<close>

theorem dismissal_leaves_promise_pending:
  "snd (createModal ''A'' None 4294967296 (mounted 0 init)) = 0 \<and>
   ''10000000'' \<in> set (stack (run (mounted 0 init)
      [Create ''A'' None 4294967296, Create ''B'' None 4294967297, Present]) 0) \<and>
   entries (run (mounted 0 init)
      [Create ''A'' None 4294967296, Create ''B'' None 4294967297, Present]) ''10000000'' \<noteq> None \<and>
   presented (run (mounted 0 init)
      [Create ''A'' None 4294967296, Create ''B'' None 4294967297]) =
     [\<lparr>h_this = 0, h_id = ''10000000'', h_resolve = 1\<rparr>,
      \<lparr>h_this = 0, h_id = ''10000000'', h_resolve = 1\<rparr>] \<and>
   stack (run (mounted 0 init)
      [Create ''A'' None 4294967296, Create ''B'' None 4294967297, Present,
       Dismiss \<lparr>h_this = 0, h_id = ''10000000'', h_resolve = 1\<rparr> (JString ''x''),
       Dismiss \<lparr>h_this = 0, h_id = ''10000000'', h_resolve = 1\<rparr> (JString ''y'')]) 0 = [] \<and>
   promises (run (mounted 0 init)
      [Create ''A'' None 4294967296, Create ''B'' None 4294967297, Present,
       Dismiss \<lparr>h_this = 0, h_id = ''10000000'', h_resolve = 1\<rparr> (JString ''x''),
       Dismiss \<lparr>h_this = 0, h_id = ''10000000'', h_resolve = 1\<rparr> (JString ''y'')]) ! 0 = Pending \<and>
   promises (run (mounted 0 init)
      [Create ''A'' None 10, Present,
       Dismiss \<lparr>h_this = 0, h_id = ''0000000a'', h_resolve = 0\<rparr> (JThenable 7)]) ! 0 =
     Adopting (JThenable 7)"
  by (simp add: modalId_collision modalId_small module_eval)

subsection \<open>The stack and the registry have the same size\<close>

text \<open>
  C3. Start with one instance registered and run an admissible sequence of creations,
  renderings and dismissals in which every creation draws an identifier that has no
  entry at that moment. After each operation of the sequence the stack of the
  registered instance is as long as the registry has entries (a dismissed entry is
  deleted, so the entries are those not dismissed).
\<close>

theorem stack_length_eq_registry:
  assumes "admissible [] (mounted ms init) ops" and "newIds (mounted ms init) ops"
  shows "length (stack (run (mounted ms init) (take k ops)) ms) =
         card (dom (entries (run (mounted ms init) (take k ops))))"
proof -
  from assms(1) have "admissible [] (mounted ms init) (take k ops)"
    by (rule admissible_take)
  moreover from assms(2) have "newIds (mounted ms init) (take k ops)"
    by (rule newIds_take)
  ultimately have "stackOk ms (run (mounted ms init) (take k ops))"
    by (intro stackOk_run [where hs = "[]"] registryOk_mounted_init stackOk_mounted_init
        handlersOk_Nil)
  then show ?thesis
    by (rule stackOk_length)
qed

theorem stack_length_eq_registry_witness:
  "admissible [] (mounted 0 init)
     [Create ''A'' None 10, Present, Create ''B'' None 11,
      Dismiss \<lparr>h_this = 0, h_id = ''0000000a'', h_resolve = 0\<rparr> (JString ''x'')] \<and>
   newIds (mounted 0 init)
     [Create ''A'' None 10, Present, Create ''B'' None 11,
      Dismiss \<lparr>h_this = 0, h_id = ''0000000a'', h_resolve = 0\<rparr> (JString ''x'')] \<and>
   length (stack (run (mounted 0 init) (take 4
     [Create ''A'' None 10, Present, Create ''B'' None 11,
      Dismiss \<lparr>h_this = 0, h_id = ''0000000a'', h_resolve = 0\<rparr> (JString ''x'')])) 0) =
   card (dom (entries (run (mounted 0 init) (take 4
     [Create ''A'' None 10, Present, Create ''B'' None 11,
      Dismiss \<lparr>h_this = 0, h_id = ''0000000a'', h_resolve = 0\<rparr> (JString ''x'')]))))"
proof -
  let ?ops = "[Create ''A'' None 10, Present, Create ''B'' None 11,
      Dismiss \<lparr>h_this = 0, h_id = ''0000000a'', h_resolve = 0\<rparr> (JString ''x'')]"
  have a: "admissible [] (mounted 0 init) ?ops"
    by (simp add: modalId_small module_eval)
  have h: "newIds (mounted 0 init) ?ops"
    by (simp add: modalId_small module_eval)
  from a h stack_length_eq_registry [OF a h, of 4] show ?thesis
    by blast
qed

text \<open>
  Without the condition on the identifiers the sizes differ: two creations whose random
  values share their leading eight hexadecimal digits push the same identifier twice
  and store one entry.
\<close>

theorem stack_length_collision:
  "length (stack (run (mounted 0 init)
      [Create ''A'' None 4294967296, Create ''B'' None 4294967297]) 0) = 2 \<and>
   card (dom (entries (run (mounted 0 init)
      [Create ''A'' None 4294967296, Create ''B'' None 4294967297]))) = 1 \<and>
   length (stack (run (mounted 0 init)
      [Create ''A'' None 4294967296, Create ''B'' None 4294967297]) 0) \<noteq>
   card (dom (entries (run (mounted 0 init)
      [Create ''A'' None 4294967296, Create ''B'' None 4294967297])))"
  by (simp add: modalId_collision module_eval)

subsection \<open>The events\<close>

text \<open>
  C4. What the registered instance emits: nothing when a modal is created; at the
  first rendering of the new modal the events \<^verbatim>\<open>modalDismissed\<close> and \<^verbatim>\<open>modals\<close>;
  when the handler that this rendering returned is called, the events
  \<^verbatim>\<open>modalCreated\<close> and \<^verbatim>\<open>modals\<close>. Each event carries \<^verbatim>\<open>hasModals\<close> of that
  moment. The names \<^verbatim>\<open>modalCreated\<close> and \<^verbatim>\<open>modalDismissed\<close> are thus emitted at
  each other's occasion.
\<close>

theorem events_swapped:
  "emitted (run (mounted ms init) [Create c pr n]) = [] \<and>
   presented (run (mounted ms init) [Create c pr n]) =
     [\<lparr>h_this = ms, h_id = modalId n, h_resolve = 0\<rparr>] \<and>
   emitted (run (mounted ms init) [Create c pr n, Present]) =
     [(ms, ''modalDismissed'', True), (ms, ''modals'', True)] \<and>
   emitted (run (mounted ms init) [Create c pr n, Present,
       Dismiss \<lparr>h_this = ms, h_id = modalId n, h_resolve = 0\<rparr> r]) =
     [(ms, ''modalDismissed'', True), (ms, ''modals'', True),
      (ms, ''modalCreated'', False), (ms, ''modals'', False)]"
  by (simp add: module_eval)

subsection \<open>The scenario of two modals\<close>


subsection \<open>After a dismissal\<close>

text \<open>
  C6. After \<^verbatim>\<open>onDismissModal\<close> has run for an identifier, the identifier has no entry
  in the registry; and it is not in the stack of the instance either, provided it
  occurred there at most once before: \<^verbatim>\<open>splice\<close> removes the first occurrence only.
\<close>

theorem dismissed_id_absent:
  "entries (onDismissModal h r s) (h_id h) = None \<and>
   (count_list (stack s (h_this h)) (h_id h) \<le> 1 \<longrightarrow>
      h_id h \<notin> set (stack (onDismissModal h r s) (h_this h)))"
proof -
  have "x \<notin> set (remove1 x xs)" if "count_list xs x \<le> 1" for x :: string and xs
    using that
  proof (induction xs)
    case Nil
    then show ?case by simp
  next
    case (Cons y ys)
    then show ?case
      by (cases "y = x") (auto simp: count_list_0_iff)
  qed
  then show ?thesis
    by (simp add: onDismissModal_fields)
qed

theorem dismissed_id_absent_witness:
  "count_list (stack (run (mounted 0 init) [Create ''A'' None 10, Present]) 0) ''0000000a'' \<le> 1 \<and>
   ''0000000a'' \<notin> set (stack (onDismissModal \<lparr>h_this = 0, h_id = ''0000000a'', h_resolve = 0\<rparr>
      (JString ''x'') (run (mounted 0 init) [Create ''A'' None 10, Present])) 0) \<and>
   entries (onDismissModal \<lparr>h_this = 0, h_id = ''0000000a'', h_resolve = 0\<rparr>
      (JString ''x'') (run (mounted 0 init) [Create ''A'' None 10, Present])) ''0000000a'' = None"
proof -
  have h: "count_list (stack (run (mounted 0 init) [Create ''A'' None 10, Present]) 0) ''0000000a'' \<le> 1"
    by (simp add: modalId_small module_eval)
  from h dismissed_id_absent [of "\<lparr>h_this = 0, h_id = ''0000000a'', h_resolve = 0\<rparr>"
      "JString ''x''" "run (mounted 0 init) [Create ''A'' None 10, Present]"]
  show ?thesis by simp
qed

text \<open>
  An identifier drawn twice stays in the stack after its dismissal: the two random
  values below give the identifier \<open>''10000000''\<close> both, the rendering returns the
  handler of that identifier, and calling it leaves one occurrence in the stack.
\<close>

theorem dismissed_id_remains_on_collision:
  "presented (run (mounted 0 init)
      [Create ''A'' None 4294967296, Create ''B'' None 4294967297]) =
     [\<lparr>h_this = 0, h_id = ''10000000'', h_resolve = 1\<rparr>,
      \<lparr>h_this = 0, h_id = ''10000000'', h_resolve = 1\<rparr>] \<and>
   ''10000000'' \<in> set (stack (run (mounted 0 init)
      [Create ''A'' None 4294967296, Create ''B'' None 4294967297, Present,
       Dismiss \<lparr>h_this = 0, h_id = ''10000000'', h_resolve = 1\<rparr> (JString ''x'')]) 0)"
  by (simp add: modalId_collision module_eval)

subsection \<open>Rendering returns the cached node\<close>

text \<open>
  C7. When \<^verbatim>\<open>render\<close> has produced a node for an identifier of the stack, every later
  \<^verbatim>\<open>render\<close>, in a state where the entry of that identifier is still the same one,
  returns that very node for the identifier (the node with the same identity, not one
  built anew) and leaves the entry as it is. Rendering twice in a row is the case
  \<open>s2 = s1\<close>.
\<close>

theorem render_returns_cached_node:
  assumes "render this s = (s1, Inr ns)" and "k < length (stack s this)"
    and "entries s2 (stack s this ! k) = entries s1 (stack s this ! k)"
    and "render that s2 = (s3, Inr ns2)" and "k2 < length (stack s2 that)"
    and "stack s2 that ! k2 = stack s this ! k"
  shows "ns2 ! k2 = ns ! k \<and> entries s3 (stack s this ! k) = entries s1 (stack s this ! k)"
proof -
  from assms(1,2) obtain e
    where e: "entries s1 (stack s this ! k) = Some e" "vnode e = Some (ns ! k)"
    unfolding render_def by (blast dest: renderAll_caches)
  from e(1) assms(3,6) have e2: "entries s2 (stack s2 that ! k2) = Some e"
    by simp
  from assms(4) have r2: "renderAll that (stack s2 that) s2 = (s3, Inr ns2)"
    by (simp add: render_def)
  from renderAll_returns_cached [OF r2 assms(5) e2 e(2)] have "ns2 ! k2 = ns ! k" .
  moreover from renderAll_keeps_cached [OF e2 e(2), of that "stack s2 that"] r2 assms(6) e(1)
  have "entries s3 (stack s this ! k) = entries s1 (stack s this ! k)"
    by simp
  ultimately show ?thesis by simp
qed

theorem render_returns_cached_node_witness:
  "render 0 (run (mounted 0 init) [Create ''A'' None 10]) =
     (run (mounted 0 init) [Create ''A'' None 10, Present],
      Inr [VDiv 1 [(''data-modal-0000000a'', [])]
        (VComponent 0 ''A'' None \<lparr>h_this = 0, h_id = ''0000000a'', h_resolve = 0\<rparr>)]) \<and>
   render 0 (run (mounted 0 init) [Create ''A'' None 10, Present, Create ''B'' None 11]) =
     (run (mounted 0 init) [Create ''A'' None 10, Present, Create ''B'' None 11, Present],
      Inr [VDiv 1 [(''data-modal-0000000a'', [])]
        (VComponent 0 ''A'' None \<lparr>h_this = 0, h_id = ''0000000a'', h_resolve = 0\<rparr>),
           VDiv 3 [(''data-modal-0000000b'', [])]
        (VComponent 2 ''B'' None \<lparr>h_this = 0, h_id = ''0000000b'', h_resolve = 1\<rparr>)]) \<and>
   [VDiv 1 [(''data-modal-0000000a'', [])]
        (VComponent 0 ''A'' None \<lparr>h_this = 0, h_id = ''0000000a'', h_resolve = 0\<rparr>),
    VDiv 3 [(''data-modal-0000000b'', [])]
        (VComponent 2 ''B'' None \<lparr>h_this = 0, h_id = ''0000000b'', h_resolve = 1\<rparr>)] ! 0 =
   [VDiv 1 [(''data-modal-0000000a'', [])]
        (VComponent 0 ''A'' None \<lparr>h_this = 0, h_id = ''0000000a'', h_resolve = 0\<rparr>)] ! 0"
proof -
  let ?a = "VDiv 1 [(''data-modal-0000000a'', [])]
        (VComponent 0 ''A'' None \<lparr>h_this = 0, h_id = ''0000000a'', h_resolve = 0\<rparr>)"
  let ?b = "VDiv 3 [(''data-modal-0000000b'', [])]
        (VComponent 2 ''B'' None \<lparr>h_this = 0, h_id = ''0000000b'', h_resolve = 1\<rparr>)"
  let ?s = "run (mounted 0 init) [Create ''A'' None 10]"
  let ?s1 = "run (mounted 0 init) [Create ''A'' None 10, Present]"
  let ?s2 = "run (mounted 0 init) [Create ''A'' None 10, Present, Create ''B'' None 11]"
  let ?s3 = "run (mounted 0 init) [Create ''A'' None 10, Present, Create ''B'' None 11, Present]"
  have r1: "render 0 ?s = (?s1, Inr [?a])"
    by (simp add: modalId_small module_eval)
  have r2: "render 0 ?s2 = (?s3, Inr [?a, ?b])"
    by (simp add: modalId_small module_eval)
  have k: "0 < length (stack ?s 0)" "0 < length (stack ?s2 0)"
    by (simp_all add: modalId_small module_eval)
  have same: "stack ?s2 0 ! 0 = stack ?s 0 ! 0"
    by (simp add: modalId_small module_eval)
  have kept: "entries ?s2 (stack ?s 0 ! 0) = entries ?s1 (stack ?s 0 ! 0)"
    by (simp add: modalId_small module_eval)
  have c: "[?a, ?b] ! 0 = [?a] ! 0 \<and> entries ?s3 (stack ?s 0 ! 0) = entries ?s1 (stack ?s 0 ! 0)"
    by (rule render_returns_cached_node [OF r1 k(1) kept r2 k(2) same])
  then have "[?a, ?b] ! 0 = [?a] ! 0" ..
  with r1 r2 show ?thesis by blast
qed

subsection \<open>The identifier\<close>

text \<open>
  C8. Every identifier \<^verbatim>\<open>createModal\<close> generates is a string of exactly 8
  hexadecimal characters, whatever value the pseudo-random source delivers.
\<close>

theorem modalId_eight_hex:
  "length (modalId n) = 8 \<and> list_all isHexChar (modalId n)"
proof
  have "length (substr (toString16 n) 0 8) \<le> 8"
    by (simp add: substr_def)
  then show "length (modalId n) = 8"
    unfolding modalId_def by (rule length_padStart)
next
  have "isHexChar CHR ''0''"
    by (simp add: isHexChar_def)
  then show "list_all isHexChar (modalId n)"
    unfolding modalId_def
    by (intro list_all_padStart list_all_substr list_all_toString16)
qed

subsection \<open>Mounting and unmounting\<close>

text \<open>
  C9. Mounting an instance while an instance is registered in \<^verbatim>\<open>modalStack\<close> calls
  \<^verbatim>\<open>warn\<close> once and does nothing else: the hook returns, with the state otherwise as
  it was (the registered instance included). The hook has no \<^verbatim>\<open>throw\<close>, so its
  model is a total function on states.
\<close>

theorem second_mount_warns:
  assumes "modalStack s = Some ms"
  shows "mounted this s =
     s\<lparr>warnings := warnings s @ [''Vue modal stack component mounted multiple times'']\<rparr>"
  using assms by (simp add: mounted_def warn_def)

theorem second_mount_warns_witness:
  "modalStack (mounted 0 init) = Some 0 \<and>
   mounted 1 (mounted 0 init) =
     (mounted 0 init)\<lparr>warnings := warnings (mounted 0 init) @
        [''Vue modal stack component mounted multiple times'']\<rparr>"
proof -
  have h: "modalStack (mounted 0 init) = Some 0"
    by (simp add: mounted_def init_def)
  from h second_mount_warns [OF h, of 1] show ?thesis by blast
qed

text \<open>
  A mounted instance need not be the registered one. Instance 1 mounts as a duplicate
  of instance 0 and is not registered; when instance 0 has unmounted, instance 1 is
  still mounted and \<^verbatim>\<open>modalStack\<close> is empty, so mounting instance 2 registers it and
  warns nothing.
\<close>

theorem mount_beside_duplicate_warns_nothing:
  "mountedNow [Mount 0, Mount 1, Unmount 0] = [1] \<and>
   modalStack (lifecycle init [Mount 0, Mount 1, Unmount 0]) = None \<and>
   warnings (lifecycle init [Mount 0, Mount 1, Unmount 0, Mount 2]) =
     warnings (lifecycle init [Mount 0, Mount 1, Unmount 0]) \<and>
   modalStack (lifecycle init [Mount 0, Mount 1, Unmount 0, Mount 2]) = Some 2"
  by (simp add: mountedNow_def lifecycle_def mounted_def beforeUnmount_def warn_def init_def)

text \<open>
  C10. \<^verbatim>\<open>beforeUnmount\<close> clears \<^verbatim>\<open>modalStack\<close> exactly when the instance unmounted
  is the registered one. After instance \<open>a\<close> and then instance \<open>b\<close> were mounted,
  \<open>a\<close> is registered; unmounting \<open>b\<close> changes nothing, and \<^verbatim>\<open>createModal\<close> still
  pushes onto the stack of \<open>a\<close> and returns a pending promise; unmounting \<open>a\<close>
  leaves no instance registered, and \<^verbatim>\<open>createModal\<close> then pushes nowhere and returns
  a rejected promise.
\<close>

theorem beforeUnmount_registered_only:
  assumes "modalStack s = None" and "a \<noteq> b"
  shows "modalStack (beforeUnmount this t) =
       (if modalStack t = Some this then None else modalStack t) \<and>
     modalStack (mounted b (mounted a s)) = Some a \<and>
     beforeUnmount b (mounted b (mounted a s)) = mounted b (mounted a s) \<and>
     stack (fst (createModal c pr n (beforeUnmount b (mounted b (mounted a s))))) a =
       stack s a @ [modalId n] \<and>
     promises (fst (createModal c pr n (beforeUnmount b (mounted b (mounted a s))))) !
       snd (createModal c pr n (beforeUnmount b (mounted b (mounted a s)))) = Pending \<and>
     modalStack (beforeUnmount a (mounted b (mounted a s))) = None \<and>
     stack (fst (createModal c pr n (beforeUnmount a (mounted b (mounted a s))))) = stack s \<and>
     promises (fst (createModal c pr n (beforeUnmount a (mounted b (mounted a s))))) !
       snd (createModal c pr n (beforeUnmount a (mounted b (mounted a s)))) =
       Rejected ''No ModalStack avaible''"
  using assms
  by (simp add: mounted_def beforeUnmount_def warn_def createModal_def rejectPromise_def Let_def)

theorem beforeUnmount_registered_only_witness:
  "modalStack init = None \<and> (0::nat) \<noteq> 1 \<and>
   modalStack (mounted 1 (mounted 0 init)) = Some 0 \<and>
   beforeUnmount 1 (mounted 1 (mounted 0 init)) = mounted 1 (mounted 0 init) \<and>
   modalStack (beforeUnmount 0 (mounted 1 (mounted 0 init))) = None"
proof -
  have h: "modalStack init = None" "(0::nat) \<noteq> 1"
    by (simp_all add: init_def)
  from h beforeUnmount_registered_only [OF h, of _ _ "''A''" None 10] show ?thesis by blast
qed

end
